theory Spec2Isabelle
  imports Main "HOL-Library.Word" "HOL-Library.Sublist"
begin

section \<open>Frames, channels and the ways a goroutine stops\<close>

text \<open>
  A frame is a Go \<^verbatim>\<open>[]byte\<close>. A client channel (\<^verbatim>\<open>ClientChan\<close>) and a
  camera device are heap objects; they are named by the order in which \<^verbatim>\<open>make\<close> and
  \<^verbatim>\<open>device.Open\<close> created them.
\<close>

type_synonym frame = "8 word list"
type_synonym cid = nat
type_synonym dev = nat

text \<open>
  A step of a goroutine either yields a new state or stops: \<open>Stuck\<close> when the goroutine
  cannot take that step in that state (it waits on a channel or on the mutex, or it is
  not at that point of its code), \<open>Panic\<close> for a run-time panic, \<open>Exited\<close> for
  \<^verbatim>\<open>log.Fatalf\<close>, which ends the process.
\<close>

datatype stop = Stuck | Panic string | Exited string

text \<open>A buffered Go channel: the queued values, the capacity, the closed flag.\<close>

record chan =
  buf :: "frame list"
  cap :: nat
  closed :: bool

definition makeChan :: "nat \<Rightarrow> chan" where
  "makeChan n = \<lparr>buf = [], cap = n, closed = False\<rparr>"

text \<open>
  \<^verbatim>\<open>select { case ch <- v: default: }\<close>: the send is taken when the buffer has room,
  the default branch otherwise; a send on a closed channel panics.
\<close>

definition trySend :: "frame \<Rightarrow> chan \<Rightarrow> stop + chan" where
  "trySend v ch =
     (if closed ch then Inl (Panic ''send on closed channel'')
      else if length (buf ch) < cap ch then Inr (ch\<lparr>buf := buf ch @ [v]\<rparr>)
      else Inr ch)"

definition closeChan :: "chan \<Rightarrow> stop + chan" where
  "closeChan ch =
     (if closed ch then Inl (Panic ''close of closed channel'')
      else Inr (ch\<lparr>closed := True\<rparr>))"

section \<open>The camera device\<close>

text \<open>
  The go4vl library is not part of the repository. A device object is taken to own the
  channel that \<^verbatim>\<open>GetOutput\<close> returns: \<open>outq\<close> holds the frames waiting on it, and a
  device made by a later \<^verbatim>\<open>device.Open\<close> has a channel of its own. What
  \<^verbatim>\<open>device.Open\<close> and \<^verbatim>\<open>camera.Start\<close> return is an input of the model.
\<close>

record device =
  isOpen :: bool
  outq :: "frame list"

datatype setup_outcome = OpenFails string | StartFails string | Started

record proc =
  cameraDevice :: "dev option"
  devices :: "dev \<Rightarrow> device"
  nextDev :: dev
  logs :: "string list"

definition logPrint :: "string \<Rightarrow> 'a proc_scheme \<Rightarrow> 'a proc_scheme" where
  "logPrint m s = s\<lparr>logs := logs s @ [m]\<rparr>"

definition closeDevice :: "dev \<Rightarrow> 'a proc_scheme \<Rightarrow> 'a proc_scheme" where
  "closeDevice d s = s\<lparr>devices := (devices s)(d := (devices s d)\<lparr>isOpen := False\<rparr>)\<rparr>"

definition openDevice :: "bool \<Rightarrow> 'a proc_scheme \<Rightarrow> 'a proc_scheme" where
  "openDevice running s =
     s\<lparr>devices := (devices s)(nextDev s := \<lparr>isOpen = running, outq = []\<rparr>),
       nextDev := Suc (nextDev s)\<rparr>"

text \<open>\<^verbatim>\<open>setupCamera\<close>: open the device, start the stream, close it again if the start fails.\<close>

definition setupCamera :: "setup_outcome \<Rightarrow> 'a proc_scheme \<Rightarrow> (string + dev) \<times> 'a proc_scheme" where
  "setupCamera oc s =
     (case oc of
        OpenFails e \<Rightarrow> (Inl (''failed to open device: '' @ e), s)
      | StartFails e \<Rightarrow> (Inl (''camera start: '' @ e), openDevice False s)
      | Started \<Rightarrow> (Inr (nextDev s), openDevice True s))"

text \<open>
  \<^verbatim>\<open>restartCamera\<close>: close the current device unless the handle is nil, assign the
  result of \<^verbatim>\<open>setupCamera\<close> to the global handle (nil on failure), log a failure.
\<close>

definition restartCamera :: "setup_outcome \<Rightarrow> 'a proc_scheme \<Rightarrow> 'a proc_scheme" where
  "restartCamera oc s =
     (let s1 = (case cameraDevice s of None \<Rightarrow> s | Some d \<Rightarrow> closeDevice d s)
      in case setupCamera oc s1 of
           (Inl err, s2) \<Rightarrow> logPrint (''failed to restart camera: '' @ err) (s2\<lparr>cameraDevice := None\<rparr>)
         | (Inr d, s2) \<Rightarrow> s2\<lparr>cameraDevice := Some d\<rparr>)"

section \<open>The state of the server (main.go)\<close>

text \<open>
  Where an \<^verbatim>\<open>imageServ\<close> goroutine is: in its \<^verbatim>\<open>for\<close> loop, in the deferred function
  after the \<^verbatim>\<open>delete\<close>, or after \<^verbatim>\<open>close(clientChan)\<close>.
\<close>

datatype pc = InLoop | Deleted | Closed

text \<open>What \<^verbatim>\<open>CreatePart\<close> and \<^verbatim>\<open>Write\<close> do for one frame of one session.\<close>

datatype part_outcome = PartWritten | CreatePartFails string | WriteFails string

text \<open>
  \<open>clients\<close> is the key set of the global map, \<open>mutexLocked\<close> is \<^verbatim>\<open>clientsMutex\<close>,
  \<open>chans\<close> is the heap of client channels with \<open>nextChan\<close> the next one \<^verbatim>\<open>make\<close>
  returns, \<open>bcFrames\<close> is the local variable \<^verbatim>\<open>frames\<close> of \<^verbatim>\<open>frameBroadcaster\<close> (the
  device whose output channel it ranges over), and \<open>written\<close> holds the parts each
  session has written to its response.
\<close>

record sys = proc +
  clients :: "cid set"
  mutexLocked :: bool
  chans :: "cid \<Rightarrow> chan"
  nextChan :: cid
  sessions :: "cid \<Rightarrow> pc option"
  written :: "cid \<Rightarrow> frame list"
  bcFrames :: dev

definition lockMutex :: "sys \<Rightarrow> stop + sys" where
  "lockMutex s = (if mutexLocked s then Inl Stuck else Inr (s\<lparr>mutexLocked := True\<rparr>))"

definition unlockMutex :: "sys \<Rightarrow> stop + sys" where
  "unlockMutex s =
     (if mutexLocked s then Inr (s\<lparr>mutexLocked := False\<rparr>)
      else Inl (Panic ''sync: unlock of unlocked mutex''))"

subsection \<open>The broadcaster\<close>

text \<open>
  Lines 60 to 68 of \<^verbatim>\<open>frameBroadcaster\<close> as the sequence of synchronisation actions
  they perform: lock, one non-blocking send for each key that \<^verbatim>\<open>range clients\<close>
  visits, unlock. The order \<open>ks\<close> of the keys is chosen by the Go run time.
\<close>

datatype action = ALock | ASend cid | AUnlock

definition publish_actions :: "cid list \<Rightarrow> action list" where
  "publish_actions ks = ALock # map ASend ks @ [AUnlock]"

fun perform :: "frame \<Rightarrow> action \<Rightarrow> sys \<Rightarrow> stop + sys" where
  "perform f ALock s = lockMutex s"
| "perform f (ASend c) s =
     (case trySend f (chans s c) of
        Inl e \<Rightarrow> Inl e
      | Inr ch \<Rightarrow> Inr (s\<lparr>chans := (chans s)(c := ch)\<rparr>))"
| "perform f AUnlock s = unlockMutex s"

fun performAll :: "frame \<Rightarrow> action list \<Rightarrow> sys \<Rightarrow> stop + sys" where
  "performAll f [] s = Inr s"
| "performAll f (a # as) s =
     (case perform f a s of Inl e \<Rightarrow> Inl e | Inr s' \<Rightarrow> performAll f as s')"

text \<open>
  \<open>publish\<close> is stuck on a list \<open>ks\<close> that is not an enumeration of the registry: the
  \<^verbatim>\<open>range\<close> loop visits every key once.
\<close>

definition publish :: "cid list \<Rightarrow> frame \<Rightarrow> sys \<Rightarrow> stop + sys" where
  "publish ks f s =
     (if distinct ks \<and> set ks = clients s then performAll f (publish_actions ks) s
      else Inl Stuck)"

text \<open>The body of the \<^verbatim>\<open>for frame := range frames\<close> loop for one frame.\<close>

definition loopBody :: "cid list \<Rightarrow> frame \<Rightarrow> sys \<Rightarrow> stop + sys" where
  "loopBody ks f s =
     (if length f = 0 then Inr (logPrint ''Received empty frame, skipping...'' s)
      else publish ks f s)"


subsection \<open>The viewer session\<close>

text \<open>Lines 81 to 84 of \<^verbatim>\<open>imageServ\<close>: make the channel, register it under the mutex.\<close>

definition imageServ_enter :: "sys \<Rightarrow> stop + sys" where
  "imageServ_enter s =
     (let c = nextChan s;
          s0 = s\<lparr>chans := (chans s)(c := makeChan 30), nextChan := Suc c,
                 sessions := (sessions s)(c \<mapsto> InLoop),
                 written := (written s)(c := [])\<rparr>
      in case lockMutex s0 of
           Inl e \<Rightarrow> Inl e
         | Inr s1 \<Rightarrow> unlockMutex (s1\<lparr>clients := insert c (clients s1)\<rparr>))"

text \<open>
  The first half of the deferred function (lines 87 to 89), run when the loop returns:
  delete the channel from the registry under the mutex.
\<close>

definition imageServ_return :: "cid \<Rightarrow> sys \<Rightarrow> stop + sys" where
  "imageServ_return c s =
     (case lockMutex s of
        Inl e \<Rightarrow> Inl e
      | Inr s1 \<Rightarrow>
          (case unlockMutex (s1\<lparr>clients := clients s1 - {c}\<rparr>) of
             Inl e \<Rightarrow> Inl e
           | Inr s2 \<Rightarrow> Inr (s2\<lparr>sessions := (sessions s2)(c \<mapsto> Deleted)\<rparr>)))"

text \<open>The second half (line 90): close the channel.\<close>

definition imageServ_close :: "cid \<Rightarrow> sys \<Rightarrow> stop + sys" where
  "imageServ_close c s =
     (if sessions s c = Some Deleted then
        (case closeChan (chans s c) of
           Inl e \<Rightarrow> Inl e
         | Inr ch \<Rightarrow> Inr (s\<lparr>chans := (chans s)(c := ch),
                              sessions := (sessions s)(c \<mapsto> Closed)\<rparr>))
      else Inl Stuck)"

text \<open>
  The receive case of the \<^verbatim>\<open>select\<close> (lines 104 to 118). What \<^verbatim>\<open>CreatePart\<close> and
  \<^verbatim>\<open>Write\<close> return is an input. On an empty open channel the case is not ready; on
  an empty closed channel the session returns. \<open>written\<close> counts a frame once its
  \<^verbatim>\<open>Write\<close> has succeeded.
\<close>

definition imageServ_recv :: "cid \<Rightarrow> part_outcome \<Rightarrow> sys \<Rightarrow> stop + sys" where
  "imageServ_recv c po s =
     (if sessions s c = Some InLoop then
        (case buf (chans s c) of
           [] \<Rightarrow> (if closed (chans s c) then imageServ_return c s else Inl Stuck)
         | fr # rest \<Rightarrow>
             (let s1 = s\<lparr>chans := (chans s)(c := (chans s c)\<lparr>buf := rest\<rparr>)\<rparr>
              in case po of
                   CreatePartFails e \<Rightarrow>
                     imageServ_return c (logPrint (''CreatePart failed: '' @ e) s1)
                 | WriteFails e \<Rightarrow>
                     imageServ_return c (logPrint (''Write failed: '' @ e) s1)
                 | PartWritten \<Rightarrow>
                     Inr (s1\<lparr>written := (written s1)(c := written s1 c @ [fr])\<rparr>)))
      else Inl Stuck)"

text \<open>The cancellation case of the \<^verbatim>\<open>select\<close> (lines 119 and 120).\<close>

definition imageServ_cancel :: "cid \<Rightarrow> sys \<Rightarrow> stop + sys" where
  "imageServ_cancel c s =
     (if sessions s c = Some InLoop then imageServ_return c s else Inl Stuck)"

subsection \<open>The restart endpoint and the start of the process\<close>

definition resetCameraWeb :: "setup_outcome \<Rightarrow> sys \<Rightarrow> string \<times> sys" where
  "resetCameraWeb oc s = (''Camera restarted.'', restartCamera oc s)"

definition boot :: sys where
  "boot = \<lparr>cameraDevice = None,
           devices = (\<lambda>d. \<lparr>isOpen = False, outq = []\<rparr>),
           nextDev = 0, logs = [],
           clients = {}, mutexLocked = False,
           chans = (\<lambda>c. makeChan 30), nextChan = 0,
           sessions = (\<lambda>c. None), written = (\<lambda>c. []), bcFrames = 0\<rparr>"

text \<open>
  \<^verbatim>\<open>main\<close> up to \<^verbatim>\<open>go frameBroadcaster()\<close>, for the port given by the flag: a failing
  \<^verbatim>\<open>setupCamera\<close> ends the process through \<^verbatim>\<open>log.Fatalf\<close>; otherwise the handle is
  stored, the address is logged, and the broadcaster takes the output channel of the
  device that was opened.
\<close>

definition main_start :: "string \<Rightarrow> setup_outcome \<Rightarrow> stop + sys" where
  "main_start port oc =
     (case setupCamera oc boot of
        (Inl err, s) \<Rightarrow> Inl (Exited (''failed to initialize camera: '' @ err))
      | (Inr d, s) \<Rightarrow>
          Inr ((logPrint (''Serving images on ['' @ port @ ''/stream]'')
                 (s\<lparr>cameraDevice := Some d\<rparr>))\<lparr>bcFrames := d\<rparr>))"

subsection \<open>Executions\<close>

text \<open>
  An execution of the server is a sequence of events, one for each step a goroutine or
  the hardware takes:
  \<^item> \<open>Connect\<close>: a request to \<^verbatim>\<open>/stream\<close> starts a session (lines 81 to 84);
  \<^item> \<open>Produce d f\<close>: the open device \<open>d\<close> puts frame \<open>f\<close> on its output channel;
  \<^item> \<open>Pull ks\<close>: the broadcaster takes the next frame of the channel it ranges over
    and runs the loop body, \<open>ks\<close> being the order in which \<^verbatim>\<open>range clients\<close> visits
    the registry;
  \<^item> \<open>Deliver c po\<close>: session \<open>c\<close> takes the receive case of its \<^verbatim>\<open>select\<close>;
  \<^item> \<open>Cancel c\<close>: session \<open>c\<close> takes the cancellation case;
  \<^item> \<open>CloseChan c\<close>: session \<open>c\<close>, past its \<^verbatim>\<open>delete\<close>, closes its channel;
  \<^item> \<open>Restart oc\<close>: a request to \<^verbatim>\<open>/restart\<close>;
  \<^item> \<open>ListenFails err\<close>: \<^verbatim>\<open>http.ListenAndServe\<close> returns the error \<open>err\<close>, at
    once or later, and \<^verbatim>\<open>log.Fatal\<close> (line 224) ends the process with it.

  An event that stops with \<open>Stuck\<close> cannot happen in that state. A critical section of
  the mutex runs as one event: no other goroutine enters the registry meanwhile, and a
  receive of a viewer that falls between two sends of a fan-out touches one channel
  only, so it has the effect of a receive before or after the fan-out. A viewer that is
  slow or stalled is an execution without \<open>Deliver\<close> events for its channel.

  Not modelled: what the handlers print to standard output, the response header and the
  closing boundary that \<^verbatim>\<open>mimeWriter.Close\<close> writes, and the file listing and
  download handlers.
\<close>

datatype event =
    Connect
  | Produce dev frame
  | Pull "cid list"
  | Deliver cid part_outcome
  | Cancel cid
  | CloseChan cid
  | Restart setup_outcome
  | ListenFails string

fun step :: "event \<Rightarrow> sys \<Rightarrow> stop + sys" where
  "step Connect s = imageServ_enter s"
| "step (Produce d f) s =
     (if d < nextDev s \<and> isOpen (devices s d)
      then Inr (s\<lparr>devices := (devices s)(d := (devices s d)\<lparr>outq := outq (devices s d) @ [f]\<rparr>)\<rparr>)
      else Inl Stuck)"
| "step (Pull ks) s =
     (case outq (devices s (bcFrames s)) of
        [] \<Rightarrow> Inl Stuck
      | f # rest \<Rightarrow>
          loopBody ks f
            (s\<lparr>devices := (devices s)(bcFrames s := (devices s (bcFrames s))\<lparr>outq := rest\<rparr>)\<rparr>))"
| "step (Deliver c po) s = imageServ_recv c po s"
| "step (Cancel c) s = imageServ_cancel c s"
| "step (CloseChan c) s = imageServ_close c s"
| "step (Restart oc) s = Inr (snd (resetCameraWeb oc s))"
| "step (ListenFails err) s = Inl (Exited err)"

fun run :: "event list \<Rightarrow> sys \<Rightarrow> stop + sys" where
  "run [] s = Inr s"
| "run (e # es) s = (case step e s of Inl x \<Rightarrow> Inl x | Inr s' \<Rightarrow> run es s')"

subsection \<open>Notions used to state the properties\<close>

text \<open>What a non-blocking send does to an open channel, and to every channel of a set.\<close>

definition offer :: "frame \<Rightarrow> chan \<Rightarrow> chan" where
  "offer f ch = (if length (buf ch) < cap ch then ch\<lparr>buf := buf ch @ [f]\<rparr> else ch)"

definition offerAll :: "frame \<Rightarrow> cid set \<Rightarrow> (cid \<Rightarrow> chan) \<Rightarrow> cid \<Rightarrow> chan" where
  "offerAll f K h = (\<lambda>c. if c \<in> K then offer f (h c) else h c)"

text \<open>
  The invariant of the reachable states: the mutex is free between events, the registry
  holds exactly the channels of the sessions that are in their loop, only a session past
  its \<^verbatim>\<open>close\<close> has a closed channel, and no session exists for a channel that
  \<^verbatim>\<open>make\<close> has yet to return.
\<close>

definition consistent :: "sys \<Rightarrow> bool" where
  "consistent s \<longleftrightarrow>
     \<not> mutexLocked s \<and>
     (\<forall>c. c \<in> clients s \<longleftrightarrow> sessions s c = Some InLoop) \<and>
     (\<forall>c. closed (chans s c) \<longrightarrow> sessions s c = Some Closed) \<and>
     (\<forall>c. nextChan s \<le> c \<longrightarrow> sessions s c = None)"

text \<open>
  The frame an event passes to \<open>publish\<close>, if any, and the frames passed to \<open>publish\<close>
  along an execution while channel \<open>c\<close> is in the registry.
\<close>

definition passed :: "event \<Rightarrow> sys \<Rightarrow> frame list" where
  "passed e s =
     (case e of
        Pull ks \<Rightarrow>
          (case outq (devices s (bcFrames s)) of
             [] \<Rightarrow> []
           | f # rest \<Rightarrow> if length f = 0 then [] else [f])
      | _ \<Rightarrow> [])"

fun offered :: "cid \<Rightarrow> event list \<Rightarrow> sys \<Rightarrow> frame list" where
  "offered c [] s = []"
| "offered c (e # es) s =
     (case step e s of
        Inl x \<Rightarrow> []
      | Inr s' \<Rightarrow> (if c \<in> clients s then passed e s else []) @ offered c es s')"

text \<open>What session \<open>c\<close> has written, followed by what waits in its queue.\<close>

definition held :: "cid \<Rightarrow> sys \<Rightarrow> frame list" where
  "held c s = written s c @ buf (chans s c)"




section \<open>The broadcaster with an ffmpeg sink (earlier revision)\<close>

text \<open>
  The revision of \<^verbatim>\<open>frameBroadcaster\<close> that pipes every frame to an ffmpeg process
  before it offers the frame to the single channel \<^verbatim>\<open>encodedFrameChan\<close> (capacity 10)
  that all viewers read. \<open>ffmpegIn\<close> holds the frames written to the pipe. For each frame
  that arrives, the result of the write to the pipe, the wall-clock minute and second
  read after the send, and the outcome of a reopen of the camera are inputs.
\<close>

record sinksys = proc +
  encodedFrameChan :: chan
  ffmpegIn :: "frame list"

record arrival =
  arrived :: frame
  sinkErr :: "string option"
  clockMinute :: nat
  clockSecond :: nat
  reopen :: setup_outcome

datatype bstate = Ranging | Returned

fun ffmpeg_loop :: "arrival list \<Rightarrow> sinksys \<Rightarrow> stop + (bstate \<times> sinksys)" where
  "ffmpeg_loop [] s = Inr (Ranging, s)"
| "ffmpeg_loop (a # as) s =
     (if length (arrived a) = 0
      then ffmpeg_loop as (logPrint ''Received empty frame, skipping...'' s)
      else
        (case sinkErr a of
           Some err \<Rightarrow> Inr (Returned, logPrint (''Failed to write frame to FFmpeg: '' @ err) s)
         | None \<Rightarrow>
             (let s1 = s\<lparr>ffmpegIn := ffmpegIn s @ [arrived a]\<rparr>
              in case trySend (arrived a) (encodedFrameChan s1) of
                   Inl e \<Rightarrow> Inl e
                 | Inr ch \<Rightarrow>
                     (let s2 = (if length (buf (encodedFrameChan s1)) < cap (encodedFrameChan s1)
                                then s1\<lparr>encodedFrameChan := ch\<rparr>
                                else logPrint ''Frame channel full, dropping frame to keep up with the camera.'' s1);
                          s3 = (if clockMinute a = 30 \<or> clockMinute a = 0
                                then (if 0 \<le> clockSecond a \<and> clockSecond a \<le> 2
                                      then restartCamera (reopen a) s2 else s2)
                                else s2)
                      in ffmpeg_loop as s3))))"

text \<open>
  The whole function: a failure to create the pipe or to start ffmpeg ends the process
  through \<^verbatim>\<open>log.Fatalf\<close>.
\<close>

definition frameBroadcaster_ffmpeg ::
    "string option \<Rightarrow> string option \<Rightarrow> arrival list \<Rightarrow> sinksys \<Rightarrow> stop + (bstate \<times> sinksys)" where
  "frameBroadcaster_ffmpeg pipeErr startErr as s =
     (case pipeErr of
        Some e \<Rightarrow> Inl (Exited (''Failed to create FFmpeg stdin pipe: '' @ e))
      | None \<Rightarrow>
          (case startErr of
             Some e \<Rightarrow> Inl (Exited (''Failed to start FFmpeg process: '' @ e))
           | None \<Rightarrow> ffmpeg_loop as s))"

text \<open>
  What a failed write to the pipe makes of the result of the frames before it: a
  broadcaster that is still in its loop logs the failure and returns.
\<close>

definition after_failure :: "string \<Rightarrow> stop + (bstate \<times> sinksys) \<Rightarrow> stop + (bstate \<times> sinksys)" where
  "after_failure err r =
     (case r of
        Inr (Ranging, s) \<Rightarrow> Inr (Returned, logPrint (''Failed to write frame to FFmpeg: '' @ err) s)
      | Inr (Returned, s) \<Rightarrow> Inr (Returned, s)
      | Inl e \<Rightarrow> Inl e)"

section \<open>Facts about the broadcaster\<close>

lemma trySend_open: "\<not> closed ch \<Longrightarrow> trySend f ch = Inr (offer f ch)"
  by (simp add: trySend_def offer_def)

lemma closed_offer [simp]: "closed (offer f ch) = closed ch"
  by (simp add: offer_def)

lemma offerAll_empty [simp]: "offerAll f {} h = h"
  by (simp add: offerAll_def)

lemma offerAll_insert:
  "k \<notin> K \<Longrightarrow> offerAll f K (h(k := offer f (h k))) = offerAll f (insert k K) h"
  by (rule ext) (auto simp: offerAll_def)

lemma closed_offerAll [simp]: "closed (offerAll f K h c) = closed (h c)"
  by (simp add: offerAll_def)

lemma perform_sends:
  assumes "distinct ks" "\<forall>c\<in>set ks. \<not> closed (chans s c)"
  shows "performAll f (map ASend ks @ rest) s =
     performAll f rest (s\<lparr>chans := offerAll f (set ks) (chans s)\<rparr>)"
  using assms
proof (induction ks arbitrary: s)
  case Nil
  then show ?case by simp
next
  case (Cons k ks)
  let ?s1 = "s\<lparr>chans := (chans s)(k := offer f (chans s k))\<rparr>"
  have p: "perform f (ASend k) s = Inr ?s1"
    using Cons.prems by (simp add: trySend_open)
  have d: "distinct ks" and nk: "k \<notin> set ks" using Cons.prems by auto
  have cl: "\<forall>c\<in>set ks. \<not> closed (chans ?s1 c)" using Cons.prems nk by auto
  have "performAll f (map ASend (k # ks) @ rest) s = performAll f (map ASend ks @ rest) ?s1"
    using p by simp
  also have "\<dots> = performAll f rest (?s1\<lparr>chans := offerAll f (set ks) (chans ?s1)\<rparr>)"
    by (rule Cons.IH[OF d cl])
  also have "\<dots> = performAll f rest (s\<lparr>chans := offerAll f (set (k # ks)) (chans s)\<rparr>)"
    using offerAll_insert[OF nk, of f "chans s"] by simp
  finally show ?case .
qed

lemma unlocked_id: "\<not> mutexLocked s \<Longrightarrow> s\<lparr>mutexLocked := False\<rparr> = s"
  by (cases s) simp

lemma publish_eq:
  assumes "\<not> mutexLocked s" "\<forall>c\<in>clients s. \<not> closed (chans s c)"
    "distinct ks" "set ks = clients s"
  shows "publish ks f s = Inr (s\<lparr>chans := offerAll f (clients s) (chans s)\<rparr>)"
proof -
  let ?s1 = "s\<lparr>mutexLocked := True\<rparr>"
  have cl: "\<forall>c\<in>set ks. \<not> closed (chans ?s1 c)" using assms by simp
  have "publish ks f s = performAll f (map ASend ks @ [AUnlock]) ?s1"
    using assms by (simp add: publish_def publish_actions_def lockMutex_def)
  also have "\<dots> = performAll f [AUnlock] (?s1\<lparr>chans := offerAll f (set ks) (chans ?s1)\<rparr>)"
    by (rule perform_sends[OF assms(3) cl])
  also have "\<dots> = Inr (s\<lparr>chans := offerAll f (clients s) (chans s)\<rparr>)"
    using assms unlocked_id[of "s\<lparr>chans := offerAll f (clients s) (chans s)\<rparr>"]
    by (simp add: unlockMutex_def)
  finally show ?thesis .
qed


section \<open>Facts about the sessions and the reachable states\<close>

lemma consistent_devices [simp]: "consistent (s\<lparr>devices := dv\<rparr>) = consistent s"
  by (simp add: consistent_def)

lemma consistent_logPrint [simp]: "consistent (logPrint m s) = consistent s"
  by (simp add: consistent_def logPrint_def)

lemma consistent_offerAll: "consistent s \<Longrightarrow> consistent (s\<lparr>chans := offerAll f K (chans s)\<rparr>)"
  by (simp add: consistent_def)

lemma consistent_restart: "consistent s \<Longrightarrow> consistent (restartCamera oc s)"
  by (auto simp: consistent_def restartCamera_def setupCamera_def closeDevice_def openDevice_def
      logPrint_def Let_def split: option.splits setup_outcome.splits)

lemma publish_consistent:
  assumes "consistent s" "distinct ks" "set ks = clients s"
  shows "publish ks f s = Inr (s\<lparr>chans := offerAll f (clients s) (chans s)\<rparr>)"
  using assms by (intro publish_eq) (auto simp: consistent_def)

lemma publish_not_enum: "\<not> (distinct ks \<and> set ks = clients s) \<Longrightarrow> publish ks f s = Inl Stuck"
  by (auto simp: publish_def)

lemma loopBody_consistent:
  assumes "consistent s"
  shows "loopBody ks f s =
     (if length f = 0 then Inr (logPrint ''Received empty frame, skipping...'' s)
      else if distinct ks \<and> set ks = clients s
      then Inr (s\<lparr>chans := offerAll f (clients s) (chans s)\<rparr>)
      else Inl Stuck)"
  using publish_consistent[OF assms, of ks f] publish_not_enum[of ks s f]
  by (auto simp: loopBody_def)

lemma imageServ_enter_eq:
  "\<not> mutexLocked s \<Longrightarrow> imageServ_enter s =
     Inr (s\<lparr>clients := insert (nextChan s) (clients s),
            chans := (chans s)(nextChan s := makeChan 30), nextChan := Suc (nextChan s),
            sessions := (sessions s)(nextChan s \<mapsto> InLoop),
            written := (written s)(nextChan s := [])\<rparr>)"
  by (cases s) (simp add: imageServ_enter_def Let_def lockMutex_def unlockMutex_def)

lemma imageServ_return_eq:
  "\<not> mutexLocked s \<Longrightarrow> imageServ_return c s =
     Inr (s\<lparr>clients := clients s - {c}, sessions := (sessions s)(c \<mapsto> Deleted)\<rparr>)"
  by (cases s) (simp add: imageServ_return_def lockMutex_def unlockMutex_def)

lemma imageServ_recv_eq:
  assumes "\<not> mutexLocked s" "\<not> closed (chans s c)"
  shows "imageServ_recv c po s =
     (if sessions s c = Some InLoop then
        (case buf (chans s c) of
           [] \<Rightarrow> Inl Stuck
         | fr # rest \<Rightarrow>
             if po = PartWritten
             then Inr (s\<lparr>chans := (chans s)(c := (chans s c)\<lparr>buf := rest\<rparr>),
                          written := (written s)(c := written s c @ [fr])\<rparr>)
             else Inr (s\<lparr>logs := logs s @
                            [case po of CreatePartFails e \<Rightarrow> ''CreatePart failed: '' @ e
                                      | WriteFails e \<Rightarrow> ''Write failed: '' @ e
                                      | PartWritten \<Rightarrow> []],
                          clients := clients s - {c},
                          chans := (chans s)(c := (chans s c)\<lparr>buf := rest\<rparr>),
                          sessions := (sessions s)(c \<mapsto> Deleted)\<rparr>))
      else Inl Stuck)"
  using assms
  by (cases po)
     (auto simp: imageServ_recv_def Let_def logPrint_def imageServ_return_eq split: list.splits)

lemma step_consistent:
  assumes "consistent s" "step e s = Inr s'"
  shows "consistent s'"
proof (cases e)
  case Connect
  have "\<not> mutexLocked s" using assms(1) by (simp add: consistent_def)
  then show ?thesis using assms Connect
    by (auto simp: imageServ_enter_eq consistent_def makeChan_def split: if_splits)
next
  case (Produce d f)
  then show ?thesis using assms by (auto split: if_splits)
next
  case (Pull ks)
  then show ?thesis using assms
    by (auto simp: loopBody_consistent split: list.splits if_splits)
       (simp_all add: consistent_def)
next
  case (Deliver c ok)
  have u: "\<not> mutexLocked s" using assms(1) by (simp add: consistent_def)
  show ?thesis
  proof (cases "sessions s c = Some InLoop")
    case True
    then have "\<not> closed (chans s c)" using assms(1) by (auto simp: consistent_def)
    then show ?thesis using assms Deliver u True
      by (auto simp: imageServ_recv_eq consistent_def split: list.splits if_splits)
  next
    case False
    then show ?thesis using assms Deliver by (simp add: imageServ_recv_def)
  qed
next
  case (Cancel c)
  have "\<not> mutexLocked s" using assms(1) by (simp add: consistent_def)
  then show ?thesis using assms Cancel
    by (auto simp: imageServ_cancel_def imageServ_return_eq consistent_def split: if_splits)
next
  case (CloseChan c)
  then show ?thesis using assms
    by (auto simp: imageServ_close_def closeChan_def consistent_def split: if_splits)
next
  case (Restart oc)
  then show ?thesis using assms by (auto simp: resetCameraWeb_def consistent_restart)
next
  case (ListenFails err)
  then show ?thesis using assms by simp
qed


lemma run_consistent: "consistent s \<Longrightarrow> run es s = Inr s' \<Longrightarrow> consistent s'"
proof (induction es arbitrary: s)
  case Nil
  then show ?case by simp
next
  case (Cons e es)
  then show ?case by (auto split: sum.splits dest: step_consistent)
qed


lemma main_start_cases:
  "main_start port oc = Inr s0 \<Longrightarrow>
     oc = Started \<and>
     s0 = (openDevice True boot)\<lparr>cameraDevice := Some 0,
            logs := [''Serving images on ['' @ port @ ''/stream]''], bcFrames := 0\<rparr>"
  by (auto simp: main_start_def setupCamera_def boot_def logPrint_def openDevice_def
      split: setup_outcome.splits)

lemma main_start_consistent: "main_start port oc = Inr s0 \<Longrightarrow> consistent s0"
  by (auto dest!: main_start_cases simp: consistent_def openDevice_def boot_def makeChan_def)


lemma held_restart [simp]: "held c (restartCamera oc s) = held c s"
  by (auto simp: held_def restartCamera_def setupCamera_def closeDevice_def openDevice_def
      logPrint_def Let_def split: option.splits setup_outcome.splits)

lemma step_held:
  assumes "consistent s" "step e s = Inr s'"
  shows "subseq (held c s') (held c s @ (if c \<in> clients s then passed e s else []))"
proof (cases e)
  case Connect
  have "\<not> mutexLocked s" using assms(1) by (simp add: consistent_def)
  then show ?thesis using assms Connect
    by (auto simp: imageServ_enter_eq makeChan_def held_def passed_def)
next
  case (Produce d f)
  then show ?thesis using assms by (auto simp: held_def passed_def split: if_splits)
next
  case (Pull ks)
  then show ?thesis using assms
    by (auto simp: loopBody_consistent logPrint_def held_def passed_def offerAll_def offer_def
        split: list.splits if_splits)
next
  case (Deliver c' ok)
  have u: "\<not> mutexLocked s" using assms(1) by (simp add: consistent_def)
  show ?thesis
  proof (cases "sessions s c' = Some InLoop")
    case True
    then have "\<not> closed (chans s c')" using assms(1) by (auto simp: consistent_def)
    then show ?thesis using assms Deliver u True
      by (auto simp: imageServ_recv_eq held_def passed_def subseq_append'
          split: list.splits if_splits)
  next
    case False
    then show ?thesis using assms Deliver by (simp add: imageServ_recv_def)
  qed
next
  case (Cancel c')
  have "\<not> mutexLocked s" using assms(1) by (simp add: consistent_def)
  then show ?thesis using assms Cancel
    by (auto simp: imageServ_cancel_def imageServ_return_eq held_def passed_def split: if_splits)
next
  case (CloseChan c')
  then show ?thesis using assms
    by (auto simp: imageServ_close_def closeChan_def held_def passed_def split: if_splits)
next
  case (Restart oc)
  then show ?thesis using assms by (auto simp: resetCameraWeb_def passed_def)
next
  case (ListenFails err)
  then show ?thesis using assms by simp
qed

lemma run_held:
  "consistent s \<Longrightarrow> run es s = Inr s' \<Longrightarrow> subseq (held c s') (held c s @ offered c es s)"
proof (induction es arbitrary: s)
  case Nil
  then show ?case by simp
next
  case (Cons e es)
  from Cons.prems obtain s1 where s1: "step e s = Inr s1" and r: "run es s1 = Inr s'"
    by (auto split: sum.splits)
  define p where "p = (if c \<in> clients s then passed e s else [])"
  have c1: "consistent s1" using Cons.prems(1) s1 by (rule step_consistent)
  have a: "subseq (held c s1) (held c s @ p)"
    unfolding p_def using Cons.prems(1) s1 by (rule step_held)
  have b: "subseq (held c s') (held c s1 @ offered c es s1)" using c1 r by (rule Cons.IH)
  have "subseq (held c s1 @ offered c es s1) ((held c s @ p) @ offered c es s1)"
    using a by (intro list_emb_append_mono) auto
  with b have "subseq (held c s') ((held c s @ p) @ offered c es s1)"
    by (rule subseq_order.trans)
  moreover have "offered c (e # es) s = p @ offered c es s1"
    using s1 by (simp add: p_def)
  ultimately show ?case by simp
qed

section \<open>Further facts: restart, the mutex, the ffmpeg loop\<close>

lemma held_start: "main_start port oc = Inr s0 \<Longrightarrow> held c s0 = []"
  by (auto dest!: main_start_cases simp: held_def openDevice_def boot_def makeChan_def)



lemma restart_keeps_viewers:
  "clients (restartCamera oc s) = clients s \<and> chans (restartCamera oc s) = chans s \<and>
   sessions (restartCamera oc s) = sessions s \<and> written (restartCamera oc s) = written s \<and>
   bcFrames (restartCamera oc s) = bcFrames s"
  by (cases oc)
     (simp_all add: restartCamera_def setupCamera_def logPrint_def closeDevice_def openDevice_def
        Let_def split: option.splits)
lemma after_failure_Inl [simp]: "after_failure err (Inl e) = Inl e"
  by (simp add: after_failure_def)

lemma ffmpeg_loop_failure:
  assumes "length (arrived a) \<noteq> 0" "sinkErr a = Some err"
  shows "ffmpeg_loop (pre @ a # rest) s = after_failure err (ffmpeg_loop pre s)"
proof (induction pre arbitrary: s)
  case Nil
  then show ?case using assms by (simp add: after_failure_def)
next
  case (Cons b pre)
  show ?case
  proof (cases "length (arrived b) = 0")
    case True
    then show ?thesis using Cons.IH by simp
  next
    case False
    show ?thesis
    proof (cases "sinkErr b")
      case None
      then show ?thesis using False Cons.IH
        by (simp add: Let_def split: sum.splits)
    next
      case (Some e)
      then show ?thesis using False by (simp add: after_failure_def)
    qed
  qed
qed
lemma perform_bcFrames: "perform f a s = Inr s' \<Longrightarrow> bcFrames s' = bcFrames s"
  by (cases a) (auto simp: lockMutex_def unlockMutex_def split: if_splits sum.splits)

lemma performAll_bcFrames: "performAll f as s = Inr s' \<Longrightarrow> bcFrames s' = bcFrames s"
proof (induction as arbitrary: s)
  case Nil
  then show ?case by simp
next
  case (Cons a as)
  then show ?case by (auto split: sum.splits dest: perform_bcFrames)
qed

lemma return_bcFrames: "imageServ_return c s = Inr s' \<Longrightarrow> bcFrames s' = bcFrames s"
  by (auto simp: imageServ_return_def lockMutex_def unlockMutex_def split: if_splits)

lemma step_bcFrames: "step e s = Inr s' \<Longrightarrow> bcFrames s' = bcFrames s"
proof (cases e)
  case (Pull ks)
  assume "step e s = Inr s'"
  then show ?thesis using Pull
    by (auto simp: loopBody_def publish_def logPrint_def split: list.splits if_splits
        dest!: performAll_bcFrames)
next
  case (Deliver c ok)
  assume "step e s = Inr s'"
  then show ?thesis using Deliver
    by (auto simp: imageServ_recv_def Let_def logPrint_def
        split: list.splits if_splits part_outcome.splits dest!: return_bcFrames)
next
  case (Cancel c)
  assume "step e s = Inr s'"
  then show ?thesis using Cancel
    by (auto simp: imageServ_cancel_def split: if_splits dest!: return_bcFrames)
next
  case (Restart oc)
  assume "step e s = Inr s'"
  then show ?thesis using Restart restart_keeps_viewers[of oc s]
    by (auto simp: resetCameraWeb_def)
qed (auto simp: imageServ_enter_def imageServ_close_def closeChan_def lockMutex_def
       unlockMutex_def Let_def split: if_splits)

lemma run_bcFrames: "run es s = Inr s' \<Longrightarrow> bcFrames s' = bcFrames s"
proof (induction es arbitrary: s)
  case Nil
  then show ?case by simp
next
  case (Cons e es)
  then show ?case by (auto split: sum.splits dest: step_bcFrames)
qed

subsection \<open>A closed device starves the broadcaster\<close>










text \<open>The definitions that evaluate an execution on concrete events.\<close>

lemmas ev_defs = main_start_def setupCamera_def openDevice_def boot_def imageServ_enter_def
  imageServ_recv_def imageServ_return_def imageServ_cancel_def imageServ_close_def
  lockMutex_def unlockMutex_def loopBody_def publish_def publish_actions_def trySend_def
  closeChan_def makeChan_def logPrint_def resetCameraWeb_def restartCamera_def closeDevice_def
  passed_def Let_def

section \<open>The claims\<close>

text \<open>
  C1. Whenever the mutex is free and every registered channel is open (as in every
  reachable state), \<open>publish\<close> returns for any order in which the registry is visited:
  it neither waits nor panics. A registered queue with room gets the frame appended at
  its end; a registered queue that is full keeps exactly its contents, so the new frame
  is the one dropped and nothing older is evicted; unregistered queues are untouched.
\<close>

theorem publish_nonblocking_enqueue:
  assumes "\<not> mutexLocked s" "\<forall>c\<in>clients s. \<not> closed (chans s c)"
    "distinct ks" "set ks = clients s"
  shows "\<exists>s'. publish ks f s = Inr s' \<and> clients s' = clients s \<and>
     (\<forall>c\<in>clients s.
        if length (buf (chans s c)) < cap (chans s c)
        then chans s' c = (chans s c)\<lparr>buf := buf (chans s c) @ [f]\<rparr>
        else chans s' c = chans s c) \<and>
     (\<forall>c. c \<notin> clients s \<longrightarrow> chans s' c = chans s c)"
proof -
  have "publish ks f s = Inr (s\<lparr>chans := offerAll f (clients s) (chans s)\<rparr>)"
    using assms by (rule publish_eq)
  then show ?thesis by (simp add: offerAll_def offer_def)
qed

theorem publish_nonblocking_enqueue_witness:
  "\<exists>s'. publish [0, 1] [7]
       (boot\<lparr>clients := {0, 1},
             chans := (chans boot)(0 := \<lparr>buf = [[1], [2]], cap = 2, closed = False\<rparr>,
                                   1 := \<lparr>buf = [[1]], cap = 2, closed = False\<rparr>)\<rparr>) = Inr s' \<and>
     buf (chans s' 0) = [[1], [2]] \<and> buf (chans s' 1) = [[1], [7]]"
  using publish_nonblocking_enqueue [of
      "boot\<lparr>clients := {0, 1},
             chans := (chans boot)(0 := \<lparr>buf = [[1], [2]], cap = 2, closed = False\<rparr>,
                                   1 := \<lparr>buf = [[1]], cap = 2, closed = False\<rparr>)\<rparr>"
      "[0, 1]" "[7]"]
  by (auto simp: boot_def)

text \<open>
  C7. When the next frame on the broadcaster's channel has length zero, the broadcaster
  takes it, logs the skip and does nothing else: no queue and no response changes, the
  registry is the same, the device handle is the same, no device is opened or closed,
  and the broadcaster still reads the same channel, whose next frame is the one that
  followed the empty one.
\<close>

theorem empty_frame_skipped:
  assumes "outq (devices s (bcFrames s)) = [] # rest"
  shows "\<exists>s'. step (Pull ks) s = Inr s' \<and>
     logs s' = logs s @ [''Received empty frame, skipping...''] \<and>
     chans s' = chans s \<and> clients s' = clients s \<and> written s' = written s \<and>
     cameraDevice s' = cameraDevice s \<and> nextDev s' = nextDev s \<and>
     (\<forall>d. isOpen (devices s' d) = isOpen (devices s d)) \<and>
     bcFrames s' = bcFrames s \<and> outq (devices s' (bcFrames s')) = rest"
  using assms by (simp add: loopBody_def logPrint_def)

theorem empty_frame_skipped_witness:
  "\<exists>s'. step (Pull [])
       (boot\<lparr>devices := (devices boot)(0 := \<lparr>isOpen = True, outq = [[], [5]]\<rparr>),
             nextDev := 1, cameraDevice := Some 0\<rparr>) = Inr s' \<and>
     logs s' = [''Received empty frame, skipping...''] \<and>
     outq (devices s' (bcFrames s')) = [[5]]"
  using empty_frame_skipped [of
      "boot\<lparr>devices := (devices boot)(0 := \<lparr>isOpen = True, outq = [[], [5]]\<rparr>),
             nextDev := 1, cameraDevice := Some 0\<rparr>" "[[5]]" "[]"]
  by (auto simp: boot_def)

text \<open>
  C9. With an empty registry \<open>publish\<close> returns the state it was given: the frame is
  kept nowhere. A viewer that connects afterwards is registered with an empty queue.
\<close>

theorem publish_without_viewers:
  assumes "clients s = {}" "\<not> mutexLocked s"
  shows "publish [] f s = Inr s \<and>
     (\<exists>s'. imageServ_enter s = Inr s' \<and> nextChan s \<in> clients s' \<and>
            buf (chans s' (nextChan s)) = [])"
proof -
  have "publish [] f s = Inr s"
    using assms publish_eq[of s "[]" f] by simp
  moreover have "\<exists>s'. imageServ_enter s = Inr s' \<and> nextChan s \<in> clients s' \<and>
            buf (chans s' (nextChan s)) = []"
    using assms(2) by (simp add: imageServ_enter_eq makeChan_def)
  ultimately show ?thesis by simp
qed

theorem publish_without_viewers_witness:
  "publish [] [7] boot = Inr boot \<and>
     (\<exists>s'. imageServ_enter boot = Inr s' \<and> 0 \<in> clients s' \<and> buf (chans s' 0) = [])"
  using publish_without_viewers [of boot "[7]"] by (simp add: boot_def)

text \<open>
  C10. The restart handler answers with the body "Camera restarted." whatever
  \<^verbatim>\<open>setupCamera\<close> returned: the answer after a failed open equals the answer after a
  successful one, while the failure leaves the handle nil and one more line in the log.
\<close>

theorem restart_response_fixed:
  "fst (resetCameraWeb oc s) = ''Camera restarted.'' \<and>
   fst (resetCameraWeb (OpenFails e) s) = fst (resetCameraWeb Started s) \<and>
   cameraDevice (snd (resetCameraWeb (OpenFails e) s)) = None \<and>
   logs (snd (resetCameraWeb (OpenFails e) s)) =
     logs s @ [''failed to restart camera: failed to open device: '' @ e]"
  by (simp add: resetCameraWeb_def restartCamera_def setupCamera_def logPrint_def closeDevice_def
      Let_def split: option.splits)

text \<open>
  C2. Along every execution from the start of the server, what session \<open>c\<close> has
  written to its connection, followed by what still waits in its queue, is a
  subsequence of the frames passed to \<open>publish\<close> while \<open>c\<close> was in the registry, in
  the order of the calls. A subsequence keeps the order and uses each call at most
  once, so frames may be missing but none is reordered or repeated.
\<close>

theorem viewer_receives_subsequence:
  assumes "main_start port oc = Inr s0" "run evs s0 = Inr s"
  shows "subseq (written s c @ buf (chans s c)) (offered c evs s0) \<and>
         subseq (written s c) (offered c evs s0)"
proof -
  have c0: "consistent s0" using assms(1) by (rule main_start_consistent)
  have "subseq (held c s) (held c s0 @ offered c evs s0)"
    using c0 assms(2) by (rule run_held)
  then have a: "subseq (written s c @ buf (chans s c)) (offered c evs s0)"
    using held_start[OF assms(1)] by (simp add: held_def)
  have "subseq (written s c) (written s c @ buf (chans s c))"
    by (simp add: list_emb_prefix)
  from this a have "subseq (written s c) (offered c evs s0)"
    by (rule subseq_order.trans)
  with a show ?thesis by simp
qed


theorem viewer_receives_subsequence_witness:
  "\<exists>s0 s. main_start '':8080'' Started = Inr s0 \<and>
     run [Produce 0 [1], Pull [], Connect, Produce 0 [2], Produce 0 [3], Pull [0], Pull [0],
          Deliver 0 PartWritten, Deliver 0 (WriteFails ''broken pipe'')] s0 = Inr s \<and>
     offered 0 [Produce 0 [1], Pull [], Connect, Produce 0 [2], Produce 0 [3], Pull [0], Pull [0],
          Deliver 0 PartWritten, Deliver 0 (WriteFails ''broken pipe'')] s0 = [[2], [3]] \<and>
     written s 0 = [[2]] \<and> subseq (written s 0) [[2], [3]]"
proof -
  define evs where "evs = [Produce 0 [1::8 word], Pull [], Connect, Produce 0 [2], Produce 0 [3],
     Pull [0], Pull [0], Deliver 0 PartWritten, Deliver 0 (WriteFails ''broken pipe'')]"
  define s0 where "s0 = projr (main_start '':8080'' Started)"
  define s where "s = projr (run evs s0)"
  have a: "main_start '':8080'' Started = Inr s0"
    by (simp add: s0_def ev_defs)
  have b: "run evs s0 = Inr s"
    by (simp add: s_def s0_def evs_def ev_defs)
  have o: "offered 0 evs s0 = [[2], [3]]"
    by (simp add: s0_def evs_def ev_defs)
  have w: "written s 0 = [[2]]"
    by (simp add: s_def s0_def evs_def ev_defs)
  from viewer_receives_subsequence[OF a b, of 0] o w a b
  show ?thesis unfolding evs_def by auto
qed

text \<open>
  C3, amended. In the revision with the ffmpeg sink, a failed write of a non-empty frame
  ends the broadcaster: it logs the failure and returns, so that frame and all later
  ones reach neither the sink nor the viewers; what the frames before the failure did
  stands.
\<close>

theorem sink_write_failure_ends_broadcaster:
  assumes "length (arrived a) \<noteq> 0" "sinkErr a = Some err"
  shows "frameBroadcaster_ffmpeg None None (a # rest) s =
           Inr (Returned, logPrint (''Failed to write frame to FFmpeg: '' @ err) s) \<and>
         frameBroadcaster_ffmpeg None None (pre @ a # rest) s =
           after_failure err (frameBroadcaster_ffmpeg None None pre s)"
  using assms ffmpeg_loop_failure[OF assms, of pre rest s]
  by (simp add: frameBroadcaster_ffmpeg_def)

theorem sink_write_failure_ends_broadcaster_witness:
  "frameBroadcaster_ffmpeg None None
     [\<lparr>arrived = [1], sinkErr = None, clockMinute = 5, clockSecond = 7, reopen = Started\<rparr>,
      \<lparr>arrived = [2], sinkErr = Some ''broken pipe'', clockMinute = 5, clockSecond = 8, reopen = Started\<rparr>,
      \<lparr>arrived = [3], sinkErr = None, clockMinute = 5, clockSecond = 9, reopen = Started\<rparr>]
     \<lparr>cameraDevice = Some 0, devices = (\<lambda>d. \<lparr>isOpen = (d = 0), outq = []\<rparr>),
      nextDev = 1, logs = [], encodedFrameChan = makeChan 10, ffmpegIn = []\<rparr>
   = Inr (Returned,
     \<lparr>cameraDevice = Some 0, devices = (\<lambda>d. \<lparr>isOpen = (d = 0), outq = []\<rparr>),
      nextDev = 1, logs = [''Failed to write frame to FFmpeg: broken pipe''],
      encodedFrameChan = \<lparr>buf = [[1]], cap = 10, closed = False\<rparr>, ffmpegIn = [[1]]\<rparr>)"
  using sink_write_failure_ends_broadcaster [of
     "\<lparr>arrived = [2], sinkErr = Some ''broken pipe'', clockMinute = 5, clockSecond = 8, reopen = Started\<rparr>"
     "''broken pipe''"
     "[\<lparr>arrived = [3], sinkErr = None, clockMinute = 5, clockSecond = 9, reopen = Started\<rparr>]"
     "\<lparr>cameraDevice = Some 0, devices = (\<lambda>d. \<lparr>isOpen = (d = 0), outq = []\<rparr>),
      nextDev = 1, logs = [], encodedFrameChan = makeChan 10, ffmpegIn = []\<rparr>"
     "[\<lparr>arrived = [1], sinkErr = None, clockMinute = 5, clockSecond = 7, reopen = Started\<rparr>]"]
  by (simp add: frameBroadcaster_ffmpeg_def after_failure_def trySend_def makeChan_def logPrint_def
      Let_def)

text \<open>
  The claim as stated fails: the write of the first frame fails, and the second frame,
  whose write would succeed, reaches neither the pipe nor the viewers' channel.
\<close>

theorem sink_failure_starves_viewers:
  "frameBroadcaster_ffmpeg None None
     [\<lparr>arrived = [1], sinkErr = Some ''broken pipe'', clockMinute = 5, clockSecond = 7, reopen = Started\<rparr>,
      \<lparr>arrived = [2], sinkErr = None, clockMinute = 5, clockSecond = 8, reopen = Started\<rparr>]
     \<lparr>cameraDevice = Some 0, devices = (\<lambda>d. \<lparr>isOpen = (d = 0), outq = []\<rparr>),
      nextDev = 1, logs = [], encodedFrameChan = makeChan 10, ffmpegIn = []\<rparr>
   = Inr (Returned,
     \<lparr>cameraDevice = Some 0, devices = (\<lambda>d. \<lparr>isOpen = (d = 0), outq = []\<rparr>),
      nextDev = 1, logs = [''Failed to write frame to FFmpeg: broken pipe''],
      encodedFrameChan = \<lparr>buf = [], cap = 10, closed = False\<rparr>, ffmpegIn = []\<rparr>)"
  by (simp add: frameBroadcaster_ffmpeg_def trySend_def makeChan_def logPrint_def Let_def)

text \<open>
  C4. A viewer connects and receives frame 1; the camera is restarted with success; the
  new device produces frame 2. The broadcaster still ranges over the channel of the
  old device, which is closed and empty: it cannot take a frame, the old device
  produces none, and frame 2 stays on the channel of the new device while the viewer,
  still registered, waits on a queue that holds only frame 1.
\<close>

theorem restart_leaves_broadcaster_on_old_channel:
  "(case run [Connect, Produce 0 [1], Pull [0], Restart Started, Produce 1 [2]]
           (projr (main_start '':8080'' Started)) of
      Inl x \<Rightarrow> False
    | Inr s \<Rightarrow>
        cameraDevice s = Some 1 \<and> outq (devices s 1) = [[2]] \<and> bcFrames s = 0 \<and>
        outq (devices s 0) = [] \<and> \<not> isOpen (devices s 0) \<and>
        clients s = {0} \<and> buf (chans s 0) = [[1]] \<and>
        step (Pull [0]) s = Inl Stuck \<and>
        step (Produce 0 [3]) s = Inl Stuck \<and>
        step (Deliver 0 PartWritten) s \<noteq> Inl Stuck)"
  by (simp add: ev_defs)







text \<open>
  C8. In every state the server reaches, each channel in the registry is open, belongs
  to a session that is in its loop, and was made before; a session can close its
  channel only after the channel has left the registry, so \<open>publish\<close> never panics on
  a closed channel; and a connecting viewer is registered under a channel that is not
  in the registry.
\<close>

theorem registry_invariant:
  assumes "main_start port oc = Inr s0" "run evs s0 = Inr s"
  shows "(\<forall>c\<in>clients s. \<not> closed (chans s c) \<and> sessions s c = Some InLoop \<and> c < nextChan s) \<and>
         (\<forall>c s'. step (CloseChan c) s = Inr s' \<longrightarrow> c \<notin> clients s \<and> \<not> closed (chans s c)) \<and>
         (\<forall>ks f m. publish ks f s \<noteq> Inl (Panic m)) \<and>
         (\<forall>s'. step Connect s = Inr s' \<longrightarrow>
            nextChan s \<notin> clients s \<and> clients s' = insert (nextChan s) (clients s))"
proof -
  have c0: "consistent s0" using assms(1) by (rule main_start_consistent)
  have cs: "consistent s" using c0 assms(2) by (rule run_consistent)
  have 1: "\<forall>c\<in>clients s. \<not> closed (chans s c) \<and> sessions s c = Some InLoop \<and> c < nextChan s"
  proof
    fix c assume c: "c \<in> clients s"
    then have l: "sessions s c = Some InLoop" using cs by (simp add: consistent_def)
    then have "\<not> closed (chans s c)" using cs by (auto simp: consistent_def)
    moreover have "c < nextChan s"
    proof (rule ccontr)
      assume "\<not> c < nextChan s"
      then have "sessions s c = None" using cs by (simp add: consistent_def)
      with l show False by simp
    qed
    ultimately show "\<not> closed (chans s c) \<and> sessions s c = Some InLoop \<and> c < nextChan s"
      using l by simp
  qed
  have 2: "\<forall>c s'. step (CloseChan c) s = Inr s' \<longrightarrow> c \<notin> clients s \<and> \<not> closed (chans s c)"
    using cs by (auto simp: imageServ_close_def consistent_def split: if_splits)
  have 3: "\<forall>ks f m. publish ks f s \<noteq> Inl (Panic m)"
    using publish_consistent[OF cs] publish_not_enum[of _ s] by (metis Inl_Inr_False old.sum.inject(1) stop.distinct(1))
  have u: "\<not> mutexLocked s" using cs by (simp add: consistent_def)
  have 4: "\<forall>s'. step Connect s = Inr s' \<longrightarrow>
            nextChan s \<notin> clients s \<and> clients s' = insert (nextChan s) (clients s)"
    using 1 u by (auto simp: imageServ_enter_eq)
  from 1 2 3 4 show ?thesis by blast
qed

theorem registry_invariant_witness:
  "\<exists>s0 s. main_start '':8080'' Started = Inr s0 \<and>
     run [Connect, Connect, Produce 0 [1], Pull [1, 0], Cancel 0, Produce 0 [2], Pull [1],
          CloseChan 0] s0 = Inr s \<and>
     clients s = {1} \<and> \<not> closed (chans s 1) \<and> closed (chans s 0) \<and>
     buf (chans s 1) = [[1], [2]] \<and> buf (chans s 0) = [[1]] \<and>
     sessions s 1 = Some InLoop \<and> nextChan s = 2"
proof -
  define evs where "evs = [Connect, Connect, Produce 0 [1::8 word], Pull [1, 0], Cancel 0,
     Produce 0 [2], Pull [1], CloseChan 0]"
  define s0 where "s0 = projr (main_start '':8080'' Started)"
  define s where "s = projr (run evs s0)"
  have a: "main_start '':8080'' Started = Inr s0"
    by (simp add: s0_def ev_defs)
  have b: "run evs s0 = Inr s"
    by (simp add: s_def s0_def evs_def ev_defs insert_commute)
  have c: "clients s = {1}" "closed (chans s 0)" "buf (chans s 1) = [[1], [2]]"
     "buf (chans s 0) = [[1]]" "nextChan s = 2"
    by (simp_all add: s_def s0_def evs_def ev_defs insert_commute)
  from registry_invariant[OF a b] a b c
  show ?thesis unfolding evs_def by auto
qed

end
